theory Spec2Isabelle
  imports Complex_Main
begin

section \<open>Book records\<close>

text \<open>
  A property of a JavaScript object that the type declares optional can be missing from the
  object, or be there holding \<open>undefined\<close>, \<open>null\<close> or a value. The first case is
  \<open>None\<close> of \<open>'a field\<close>, the others are \<open>Some\<close> of a \<open>'a jsopt\<close>. Reading a
  missing property gives \<open>undefined\<close>.
\<close>

datatype 'a jsopt = Undefined | Null | Val 'a

type_synonym 'a field = "'a jsopt option"

datatype jsval = JUndefined | JNull | JBool bool | JNum int | JStr string | JArr "jsval list"

text \<open>
  Modelled from the spec: the \<open>Book\<close> interface of \<open>@/types/book\<close> is not among the
  sources. The record has the attributes the data model of the specification lists:
  \<open>hash\<close> (a string, always there), \<open>updatedAt\<close> (an integer timestamp, always there),
  the optional timestamps \<open>deletedAt\<close>, \<open>uploadedAt\<close> and \<open>coverDownloadedAt\<close>, the
  optional \<open>coverImageUrl\<close>, and every other property (title, author, progress, ...) in
  \<open>rest\<close>, by name.
\<close>

record book =
  hash :: string
  updatedAt :: int
  deletedAt :: "int field"
  uploadedAt :: "int field"
  coverDownloadedAt :: "int field"
  coverImageUrl :: "string field"
  rest :: "string \<rightharpoonup> jsval"

definition get :: "'a field \<Rightarrow> 'a jsopt" where
  "get p = (case p of None \<Rightarrow> Undefined | Some v \<Rightarrow> v)"

text \<open>JavaScript truthiness of a number that may be \<open>undefined\<close> or \<open>null\<close>.\<close>

definition truthy :: "int field \<Rightarrow> bool" where
  "truthy p = (case get p of Val n \<Rightarrow> n \<noteq> 0 | _ \<Rightarrow> False)"

text \<open>\<open>p ?? d\<close>: the default replaces \<open>undefined\<close> and \<open>null\<close> only.\<close>

definition nullish_or :: "'a field \<Rightarrow> 'a \<Rightarrow> 'a" where
  "nullish_or p d = (case get p of Val n \<Rightarrow> n | _ \<Rightarrow> d)"

text \<open>
  Object spread: in \<open>{ ...a, ...b }\<close> every own property of \<open>b\<close> is written over the copy
  of \<open>a\<close>, also one that holds \<open>undefined\<close> or \<open>null\<close>.
\<close>

definition overlay :: "'a field \<Rightarrow> 'a field \<Rightarrow> 'a field" where
  "overlay lower upper = (case upper of None \<Rightarrow> lower | Some v \<Rightarrow> Some v)"

definition spread :: "book \<Rightarrow> book \<Rightarrow> book" where
  "spread a b =
     \<lparr> hash = hash b,
       updatedAt = updatedAt b,
       deletedAt = overlay (deletedAt a) (deletedAt b),
       uploadedAt = overlay (uploadedAt a) (uploadedAt b),
       coverDownloadedAt = overlay (coverDownloadedAt a) (coverDownloadedAt b),
       coverImageUrl = overlay (coverImageUrl a) (coverImageUrl b),
       rest = rest a ++ rest b \<rparr>"

section \<open>Sync cycle controller\<close>

subsection \<open>Selection of the local changes\<close>

text \<open>
  \<open>getNewBooks\<close> returns the empty object when no user is signed in: both properties of
  the result are then missing.
\<close>

record selection =
  books :: "book list option"
  lastSyncedAt :: "int option"

definition changedSince :: "int \<Rightarrow> book \<Rightarrow> bool" where
  "changedSince lastSyncedAtBooks b \<longleftrightarrow>
     lastSyncedAtBooks < updatedAt b \<or> lastSyncedAtBooks < nullish_or (deletedAt b) 0"

definition getNewBooks :: "bool \<Rightarrow> int \<Rightarrow> book list \<Rightarrow> selection" where
  "getNewBooks user lastSyncedAtBooks library =
     (if \<not> user then \<lparr> books = None, lastSyncedAt = None \<rparr>
      else \<lparr> books = Some (filter (changedSince lastSyncedAtBooks) library),
             lastSyncedAt = Some lastSyncedAtBooks \<rparr>)"


text \<open>
  A call of the gateway, \<open>syncBooks(books, op)\<close>. \<open>pushLibrary\<close> passes
  \<open>newBooks?.books\<close>, which is \<open>undefined\<close> for the empty object.
\<close>

datatype syncOp = Pull | Push | Both

type_synonym syncCall = "book list option \<times> syncOp"

subsection \<open>Push and autosync\<close>

definition pushLibrary :: "bool \<Rightarrow> int \<Rightarrow> book list \<Rightarrow> syncCall option" where
  "pushLibrary user lastSyncedAtBooks library =
     (if \<not> user then None
      else Some (books (getNewBooks user lastSyncedAtBooks library), Push))"

text \<open>
  The function that \<open>handleAutoSync\<close> throttles: \<open>if (newBooks.lastSyncedAt)\<close> holds
  when the property is there and is not zero. The result is the gateway call made, if any.
  The throttle itself (\<open>@/utils/throttle\<close>) is not among the sources: this is what runs
  each time the throttle lets a trigger through.
\<close>

definition handleAutoSync :: "bool \<Rightarrow> int \<Rightarrow> book list \<Rightarrow> syncCall option" where
  "handleAutoSync user lastSyncedAtBooks library =
     (let newBooks = getNewBooks user lastSyncedAtBooks library in
      case lastSyncedAt newBooks of
        None \<Rightarrow> None
      | Some t \<Rightarrow> if t \<noteq> 0 then Some (books newBooks, Both) else None)"

text \<open>The effect that runs on every change of the library.\<close>

definition onLibraryChange :: "bool \<Rightarrow> bool \<Rightarrow> int \<Rightarrow> book list \<Rightarrow> syncCall option" where
  "onLibraryChange user isPullingNow lastSyncedAtBooks library =
     (if \<not> user then None
      else if isPullingNow then None
      else handleAutoSync user lastSyncedAtBooks library)"

subsection \<open>Pull, behind its latch\<close>

text \<open>
  \<open>pullLibrary\<close> runs without interruption up to \<open>await syncBooks([], 'pull')\<close> and is
  resumed when the gateway call settles; its \<open>finally\<close> block runs then. The controller
  state is the latch \<open>isPullingRef.current\<close>, the gateway calls made so far, and the
  number of invocations of \<open>pullLibrary\<close> suspended at the \<open>await\<close>.
\<close>

datatype error = Rejected

record controller =
  isPulling :: bool
  gatewayCalls :: "syncCall list"
  suspended :: nat

datatype entered = Returned | Awaiting

definition pullLibrary_enter :: "bool \<Rightarrow> controller \<Rightarrow> entered \<times> controller" where
  "pullLibrary_enter user s =
     (if \<not> user then (Returned, s)
      else if isPulling s then (Returned, s)
      else (Awaiting, s\<lparr> isPulling := True,
                         gatewayCalls := gatewayCalls s @ [(Some [], Pull)],
                         suspended := Suc (suspended s) \<rparr>))"

text \<open>
  The gateway call settled with \<open>outcome\<close>: the \<open>finally\<close> block releases the latch,
  then the outcome (a rejection is rethrown) reaches the caller.
\<close>

definition pullLibrary_resume :: "error + unit \<Rightarrow> controller \<Rightarrow> (error + unit) \<times> controller" where
  "pullLibrary_resume outcome s =
     (outcome, s\<lparr> isPulling := False, suspended := suspended s - 1 \<rparr>)"

text \<open>
  What can happen to one controller, in any order: \<open>pull()\<close> is called, or the gateway
  call of a suspended pull settles (there must be one).
\<close>

datatype pullEvent = PullCalled bool | GatewaySettled "error + unit"

fun pullStep :: "controller \<Rightarrow> pullEvent \<Rightarrow> controller" where
  "pullStep s (PullCalled user) = snd (pullLibrary_enter user s)"
| "pullStep s (GatewaySettled outcome) =
     (if suspended s = 0 then s else snd (pullLibrary_resume outcome s))"

definition pullRun :: "controller \<Rightarrow> pullEvent list \<Rightarrow> controller" where
  "pullRun s evs = foldl pullStep s evs"

definition idle :: controller where
  "idle = \<lparr> isPulling = False, gatewayCalls = [], suspended = 0 \<rparr>"

section \<open>Merge engine\<close>

subsection \<open>The services of the application\<close>

text \<open>
  Modelled from the spec: \<open>appService\<close> is not among the sources. It comes from the
  environment and may be missing: \<open>appService?.f(x)\<close> is then \<open>undefined\<close> and nothing is
  called. The calls are awaited, so each one resolves or rejects.
  \<open>downloadBookCovers\<close> populates the cover of each record it is given (section 6 of the
  specification: it mutates the records; section 3: \<open>coverDownloadedAt\<close> is set once a
  cover is hydrated, \<open>coverImageUrl\<close> is the handle to it). \<open>coverWritten\<close> is what a call
  that resolves leaves in these two properties of a record, \<open>coverDownloadedAt\<close> first;
  the service writes no other property. A service that writes nothing returns the two
  properties as they are.
\<close>

record appService =
  generateCoverImageUrl :: "book \<Rightarrow> error + string jsopt"
  downloadBookCovers :: "book list \<Rightarrow> error + unit"
  coverWritten :: "book \<Rightarrow> int field \<times> string field"

definition generateCoverImageUrl_call :: "appService option \<Rightarrow> book \<Rightarrow> error + string jsopt" where
  "generateCoverImageUrl_call appSvc b =
     (case appSvc of None \<Rightarrow> Inr Undefined | Some svc \<Rightarrow> generateCoverImageUrl svc b)"

definition writeCovers :: "appService option \<Rightarrow> book \<Rightarrow> book" where
  "writeCovers appSvc b =
     (case appSvc of
        None \<Rightarrow> b
      | Some svc \<Rightarrow> b\<lparr> coverDownloadedAt := fst (coverWritten svc b),
                        coverImageUrl := snd (coverWritten svc b) \<rparr>)"

text \<open>
  \<open>await appService?.downloadBookCovers(batch)\<close>: the rejection, or the records of the
  batch as the call leaves them.
\<close>

definition downloadBookCovers_call :: "appService option \<Rightarrow> book list \<Rightarrow> error + book list" where
  "downloadBookCovers_call appSvc batch =
     (case appSvc of
        None \<Rightarrow> Inr batch
      | Some svc \<Rightarrow>
         (case downloadBookCovers svc batch of
            Inl e \<Rightarrow> Inl e
          | Inr _ \<Rightarrow> Inr (map (writeCovers appSvc) batch)))"

text \<open>\<open>await Promise.all(ps)\<close>: the values in the order of \<open>ps\<close>, or the rejection.\<close>

fun promise_all :: "(error + 'a) list \<Rightarrow> error + 'a list" where
  "promise_all [] = Inr []"
| "promise_all (Inl e # ps) = Inl e"
| "promise_all (Inr x # ps) =
     (case promise_all ps of Inl e \<Rightarrow> Inl e | Inr xs \<Rightarrow> Inr (x # xs))"

subsection \<open>Records already in the library\<close>

definition needsCover :: "book \<Rightarrow> book \<Rightarrow> bool" where
  "needsCover matchingBook oldBook \<longleftrightarrow>
     \<not> truthy (deletedAt matchingBook) \<and> truthy (uploadedAt matchingBook)
     \<and> \<not> truthy (coverDownloadedAt oldBook)"

text \<open>The assignment \<open>oldBook.coverImageUrl = await ...\<close>, under its condition.\<close>

definition assignCover :: "appService option \<Rightarrow> book \<Rightarrow> book \<Rightarrow> error + book" where
  "assignCover appSvc matchingBook oldBook =
     (if needsCover matchingBook oldBook then
        (case generateCoverImageUrl_call appSvc oldBook of
           Inl e \<Rightarrow> Inl e
         | Inr url \<Rightarrow> Inr (oldBook\<lparr> coverImageUrl := Some url \<rparr>))
      else Inr oldBook)"

definition mergedBook :: "book \<Rightarrow> book \<Rightarrow> book" where
  "mergedBook matchingBook oldBook =
     (if updatedAt matchingBook > updatedAt oldBook
      then spread oldBook matchingBook
      else spread matchingBook oldBook)"

definition processOldBook :: "appService option \<Rightarrow> book list \<Rightarrow> book \<Rightarrow> error + book" where
  "processOldBook appSvc syncedBooks oldBook =
     (case find (\<lambda>newBook. hash newBook = hash oldBook) syncedBooks of
        Some matchingBook \<Rightarrow>
          (case assignCover appSvc matchingBook oldBook of
             Inl e \<Rightarrow> Inl e
           | Inr oldBook' \<Rightarrow> Inr (mergedBook matchingBook oldBook'))
      | None \<Rightarrow> Inr oldBook)"

definition oldBooksBatchSize :: nat where
  "oldBooksBatchSize = 20"

function downloadOldCovers :: "appService option \<Rightarrow> book list \<Rightarrow> nat \<Rightarrow> error + unit" where
  "downloadOldCovers appSvc oldBooksNeedsDownload i =
     (if i < length oldBooksNeedsDownload then
        (case downloadBookCovers_call appSvc
                (take oldBooksBatchSize (drop i oldBooksNeedsDownload)) of
           Inl e \<Rightarrow> Inl e
         | Inr _ \<Rightarrow> downloadOldCovers appSvc oldBooksNeedsDownload (i + oldBooksBatchSize))
      else Inr ())"
  by pat_completeness auto
termination
  by (relation "measure (\<lambda>(appSvc, bs, i). length bs - i)")
     (auto simp: oldBooksBatchSize_def)

subsection \<open>Records new to the library\<close>

text \<open>
  What the merge does to the library store and to durable storage, in order. Progress
  is the exact quotient.
\<close>

datatype event =
    SetIsSyncing bool
  | SetLibrary "book list"
  | SetSyncProgress rat
  | SaveLibraryBooks "book list"

text \<open>
  \<open>processNewBook\<close> assigns the cover URL and pushes the record on \<open>updatedLibrary\<close>;
  the model returns the record pushed. Each record is pushed when its own cover URL call
  resolves; the model takes the calls of a batch to resolve in the order they were made,
  so the records of a batch are pushed in the order of the batch.
\<close>

definition processNewBook :: "appService option \<Rightarrow> book \<Rightarrow> error + book" where
  "processNewBook appSvc newBook =
     (case generateCoverImageUrl_call appSvc newBook of
        Inl e \<Rightarrow> Inl e
      | Inr url \<Rightarrow> Inr (newBook\<lparr> coverImageUrl := Some url \<rparr>))"

definition batchSize :: nat where
  "batchSize = 10"

function hydrateNewBooks ::
  "appService option \<Rightarrow> book list \<Rightarrow> nat \<Rightarrow> book list \<Rightarrow> event list \<times> (error + book list)" where
  "hydrateNewBooks appSvc newBooks i updatedLibrary =
     (if i < length newBooks then
        (let batch = take batchSize (drop i newBooks) in
         case downloadBookCovers_call appSvc batch of
           Inl e \<Rightarrow> ([], Inl e)
         | Inr written \<Rightarrow>
            (case promise_all (map (processNewBook appSvc) written) of
               Inl e \<Rightarrow> ([], Inl e)
             | Inr pushed \<Rightarrow>
                (let updatedLibrary' = updatedLibrary @ pushed;
                     progress = min (of_nat (i + batchSize) / of_nat (length newBooks)) 1;
                     (evs, r) = hydrateNewBooks appSvc newBooks (i + batchSize) updatedLibrary'
                 in (SetLibrary updatedLibrary' # SetSyncProgress progress # evs, r))))
      else ([], Inr updatedLibrary))"
  by pat_completeness auto
termination
  by (relation "measure (\<lambda>(appSvc, bs, i, lib). length bs - i)")
     (auto simp: batchSize_def)

subsection \<open>The merge cycle\<close>

definition isNewBook :: "string set \<Rightarrow> book \<Rightarrow> bool" where
  "isNewBook bookHashesInLibrary newBook \<longleftrightarrow>
     hash newBook \<notin> bookHashesInLibrary \<and> truthy (uploadedAt newBook)
     \<and> \<not> truthy (deletedAt newBook)"

definition needsDownload :: "book \<Rightarrow> bool" where
  "needsDownload b \<longleftrightarrow>
     \<not> truthy (deletedAt b) \<and> truthy (uploadedAt b) \<and> \<not> truthy (coverDownloadedAt b)"

text \<open>
  The records of \<open>oldBooksNeedsDownload\<close> are the objects of \<open>library\<close> themselves: once
  every batch of them has resolved, \<open>library\<close> holds them as the service left them.
\<close>

definition coversDownloaded :: "appService option \<Rightarrow> string set \<Rightarrow> book list \<Rightarrow> book list" where
  "coversDownloaded appSvc bookHashesInSynced library =
     map (\<lambda>b. if hash b \<in> bookHashesInSynced \<and> needsDownload b then writeCovers appSvc b else b)
       library"

text \<open>
  \<open>updateLibrary\<close> with the values its closure holds: the library and the syncing flag
  of the store, and the synced batch (which may be \<open>undefined\<close>). The result is the
  sequence of store and storage calls made, and how the call ended. \<open>saveLibraryBooks\<close>
  is called and not awaited.
\<close>

definition updateLibrary ::
  "appService option \<Rightarrow> book list \<Rightarrow> bool \<Rightarrow> book list option \<Rightarrow> event list \<times> (error + unit)" where
  "updateLibrary appSvc library isSyncing syncedBooks0 =
     (if isSyncing then ([], Inr ())
      else case syncedBooks0 of
        None \<Rightarrow> ([], Inr ())
      | Some unsorted \<Rightarrow>
         if length unsorted = 0 then ([], Inr ())
         else
          (let syncedBooks = sort_key updatedAt unsorted;
               bookHashesInSynced = set (map hash syncedBooks);
               oldBooks = filter (\<lambda>b. hash b \<in> bookHashesInSynced) library;
               oldBooksNeedsDownload = filter needsDownload oldBooks
           in case downloadOldCovers appSvc oldBooksNeedsDownload 0 of
                Inl e \<Rightarrow> ([], Inl e)
              | Inr _ \<Rightarrow>
                 (case promise_all (map (processOldBook appSvc syncedBooks)
                          (coversDownloaded appSvc bookHashesInSynced library)) of
                    Inl e \<Rightarrow> ([], Inl e)
                  | Inr updatedLibrary \<Rightarrow>
                     (let bookHashesInLibrary = set (map hash updatedLibrary);
                          newBooks = filter (isNewBook bookHashesInLibrary) syncedBooks;
                          raised = (if length newBooks > 0 then [SetIsSyncing True] else [])
                      in case hydrateNewBooks appSvc newBooks 0 updatedLibrary of
                           (evs, Inl e) \<Rightarrow> (raised @ evs, Inl e)
                         | (evs, Inr final) \<Rightarrow>
                            (raised @ evs @ [SetLibrary final]
                               @ (case appSvc of None \<Rightarrow> [] | Some _ \<Rightarrow> [SaveLibraryBooks final])
                               @ (if length newBooks > 0 then [SetIsSyncing False] else []),
                             Inr ())))))"

subsection \<open>The library store\<close>

text \<open>
  Modelled from the spec: the library store (\<open>@/store/libraryStore\<close>) is not among the
  sources. Each setter replaces the value it names; the other calls leave the store as it
  is. Records are values here: what a cycle writes into the records of the library reaches
  the store with the next \<open>setLibrary\<close>, and not at all on a path that calls none.
\<close>

record store =
  library :: "book list"
  isSyncing :: bool
  syncProgress :: rat

fun applyEvent :: "store \<Rightarrow> event \<Rightarrow> store" where
  "applyEvent st (SetIsSyncing v) = st\<lparr> isSyncing := v \<rparr>"
| "applyEvent st (SetLibrary l) = st\<lparr> library := l \<rparr>"
| "applyEvent st (SetSyncProgress p) = st\<lparr> syncProgress := p \<rparr>"
| "applyEvent st (SaveLibraryBooks l) = st"

definition runMerge :: "appService option \<Rightarrow> store \<Rightarrow> book list option \<Rightarrow> store \<times> (error + unit)" where
  "runMerge appSvc st syncedBooks =
     (case updateLibrary appSvc (library st) (isSyncing st) syncedBooks of
        (evs, r) \<Rightarrow> (foldl applyEvent st evs, r))"

section \<open>What the specification says, and sample records\<close>

text \<open>
  The overlay in the words of the specification: every property present in \<open>upper\<close>
  has the value of \<open>upper\<close>, every property absent from \<open>upper\<close> has the value of
  \<open>lower\<close>.
\<close>

definition presentWins :: "'a option \<Rightarrow> 'a option \<Rightarrow> 'a option \<Rightarrow> bool" where
  "presentWins lower upper r \<longleftrightarrow> (upper \<noteq> None \<longrightarrow> r = upper) \<and> (upper = None \<longrightarrow> r = lower)"

definition overlaid :: "book \<Rightarrow> book \<Rightarrow> book \<Rightarrow> bool" where
  "overlaid lower upper r \<longleftrightarrow>
     hash r = hash upper \<and> updatedAt r = updatedAt upper
     \<and> presentWins (deletedAt lower) (deletedAt upper) (deletedAt r)
     \<and> presentWins (uploadedAt lower) (uploadedAt upper) (uploadedAt r)
     \<and> presentWins (coverDownloadedAt lower) (coverDownloadedAt upper) (coverDownloadedAt r)
     \<and> presentWins (coverImageUrl lower) (coverImageUrl upper) (coverImageUrl r)
     \<and> (\<forall>k. presentWins (rest lower k) (rest upper k) (rest r k))"

definition mkBook :: "string \<Rightarrow> int \<Rightarrow> book" where
  "mkBook h t = \<lparr> hash = h, updatedAt = t, deletedAt = None, uploadedAt = None,
                 coverDownloadedAt = None, coverImageUrl = None, rest = Map.empty \<rparr>"

definition exLocal :: book where
  "exLocal = (mkBook ''h1'' 5)\<lparr> coverImageUrl := Some (Val ''local.png''),
                rest := [''title'' \<mapsto> JStr ''Old'', ''readingStatus'' \<mapsto> JStr ''unread''] \<rparr>"

definition exSynced :: book where
  "exSynced = (mkBook ''h1'' 9)\<lparr> uploadedAt := Some (Val 7), deletedAt := Some Null,
                rest := [''title'' \<mapsto> JStr ''New''] \<rparr>"

definition exChanged :: "book list" where
  "exChanged = [mkBook ''a'' 101,
                (mkBook ''b'' 99)\<lparr> deletedAt := Some (Val 101) \<rparr>,
                (mkBook ''c'' 99)\<lparr> deletedAt := Some (Val 50) \<rparr>]"

definition failingDownloads :: appService where
  "failingDownloads = \<lparr> generateCoverImageUrl = (\<lambda>b. Inr (Val (''covers/'' @ hash b))),
                        downloadBookCovers = (\<lambda>batch. Inl Rejected),
                        coverWritten = (\<lambda>b. (coverDownloadedAt b, coverImageUrl b)) \<rparr>"

definition exArrived :: book where
  "exArrived = (mkBook ''n1'' 10)\<lparr> uploadedAt := Some (Val 9) \<rparr>"

definition exShelf :: book where
  "exShelf = (mkBook ''h1'' 0)\<lparr> rest := [''title'' \<mapsto> JStr ''local''] \<rparr>"

definition exEarly :: book where
  "exEarly = (mkBook ''h1'' 1)\<lparr> rest := [''title'' \<mapsto> JStr ''early''] \<rparr>"

definition exLate :: book where
  "exLate = (mkBook ''h1'' 2)\<lparr> rest := [''title'' \<mapsto> JStr ''late''] \<rparr>"

definition exTwin1 :: book where
  "exTwin1 = (mkBook ''n1'' 1)\<lparr> uploadedAt := Some (Val 1) \<rparr>"

definition exTwin2 :: book where
  "exTwin2 = (mkBook ''n1'' 2)\<lparr> uploadedAt := Some (Val 2) \<rparr>"

definition exTomb :: book where
  "exTomb = (mkBook ''h1'' 5)\<lparr> deletedAt := Some (Val 4) \<rparr>"

definition storeOf :: "book list \<Rightarrow> store" where
  "storeOf lib = \<lparr> library = lib, isSyncing = False, syncProgress = 0 \<rparr>"

definition exBatch25 :: "book list" where
  "exBatch25 = map (\<lambda>i. (mkBook (replicate i (CHR ''x'')) (int i))\<lparr> uploadedAt := Some (Val 1) \<rparr>) [0..<25]"








section \<open>Assumptions on the services, and derived notions\<close>

text \<open>Every call of the application services resolves.\<close>

definition reliable :: "appService option \<Rightarrow> bool" where
  "reliable appSvc \<longleftrightarrow>
     (\<forall>batch. \<exists>written. downloadBookCovers_call appSvc batch = Inr written)
     \<and> (\<forall>b. \<exists>url. generateCoverImageUrl_call appSvc b = Inr url)"

text \<open>The two records agree on every property but the two cover properties.\<close>

definition sameButCovers :: "book \<Rightarrow> book \<Rightarrow> bool" where
  "sameButCovers a b \<longleftrightarrow>
     hash b = hash a \<and> updatedAt b = updatedAt a \<and> deletedAt b = deletedAt a
     \<and> uploadedAt b = uploadedAt a \<and> rest b = rest a"


text \<open>
  What becomes of a new record in its batch: the cover download writes its cover
  properties, then \<open>processNewBook\<close> assigns the cover URL.
\<close>

definition arrives :: "appService option \<Rightarrow> book \<Rightarrow> error + book" where
  "arrives appSvc newBook = processNewBook appSvc (writeCovers appSvc newBook)"

text \<open>
  The new records of a merge: those of the sorted batch whose hash the library lacks, that
  are uploaded and not deleted.
\<close>

definition newlyArrived :: "book list \<Rightarrow> book list \<Rightarrow> book list" where
  "newlyArrived lib sb = filter (isNewBook (set (map hash lib))) (sort_key updatedAt sb)"

declare hydrateNewBooks.simps [simp del] downloadOldCovers.simps [simp del]

lemmas eval_defs = updateLibrary_def runMerge_def processOldBook_def processNewBook_def
  assignCover_def needsCover_def mergedBook_def spread_def overlay_def isNewBook_def
  needsDownload_def truthy_def get_def generateCoverImageUrl_call_def downloadBookCovers_call_def
  writeCovers_def coversDownloaded_def
  batchSize_def oldBooksBatchSize_def mkBook_def Let_def
  hydrateNewBooks.simps downloadOldCovers.simps


section \<open>The field merge of a matched pair\<close>

lemma overlaid_spread: "overlaid a b (spread a b)"
  by (simp add: overlaid_def presentWins_def spread_def overlay_def map_add_def split: option.split)

lemma overlaid_unique: "overlaid a b r \<Longrightarrow> r = spread a b"
  apply (cases r)
  apply (auto simp add: overlaid_def presentWins_def spread_def overlay_def map_add_def fun_eq_iff split: option.splits)
  done

lemma find_hash: "find (\<lambda>n. hash n = h) xs = Some m \<Longrightarrow> hash m = h"
  by (induction xs) (auto split: if_splits)

lemma processOldBook_evaluated:
  "processOldBook None [exSynced] exLocal
     = Inr (mergedBook exSynced (exLocal\<lparr> coverImageUrl := Some Undefined \<rparr>))"
  by (simp add: processOldBook_def assignCover_def needsCover_def truthy_def get_def
      generateCoverImageUrl_call_def exLocal_def exSynced_def mkBook_def)

text \<open>
  C1, as stated, fails: the synced record is newer, uploaded and not deleted, and has no
  \<open>coverImageUrl\<close>; the local record has one and no \<open>coverDownloadedAt\<close>. The merged
  record is not the local record overlaid with the synced one: its \<open>coverImageUrl\<close>,
  absent from the synced record, is not the local value but the generated one (here
  \<open>undefined\<close>, no service being there).
\<close>

theorem processOldBook_overlay_counterexample:
  "find (\<lambda>newBook. hash newBook = hash exLocal) [exSynced] = Some exSynced
   \<and> updatedAt exLocal < updatedAt exSynced
   \<and> processOldBook None [exSynced] exLocal
       = Inr (mergedBook exSynced (exLocal\<lparr> coverImageUrl := Some Undefined \<rparr>))
   \<and> \<not> overlaid exLocal exSynced (mergedBook exSynced (exLocal\<lparr> coverImageUrl := Some Undefined \<rparr>))
   \<and> coverImageUrl exSynced = None
   \<and> coverImageUrl exLocal = Some (Val ''local.png'')
   \<and> coverImageUrl (mergedBook exSynced (exLocal\<lparr> coverImageUrl := Some Undefined \<rparr>))
       = Some Undefined"
  using processOldBook_evaluated
  by (simp add: overlaid_def presentWins_def mergedBook_def spread_def overlay_def
      exLocal_def exSynced_def mkBook_def)

text \<open>
  C1, amended. A local record \<open>oldBook\<close> and the synced record \<open>matchingBook\<close> found for
  it share the hash. Let \<open>local\<close> be the local record with its \<open>coverImageUrl\<close> replaced
  by the generated cover URL when the synced record is uploaded and not deleted and the
  local record has no \<open>coverDownloadedAt\<close>, and the local record itself otherwise. The
  merged record is \<open>local\<close> overlaid with every field of the synced record when the synced
  \<open>updatedAt\<close> is strictly greater, and the synced record overlaid with every field of
  \<open>local\<close> otherwise, ties included.
\<close>

theorem processOldBook_overlay:
  assumes "find (\<lambda>newBook. hash newBook = hash oldBook) syncedBooks = Some matchingBook"
    and "processOldBook appSvc syncedBooks oldBook = Inr merged"
  shows "hash matchingBook = hash oldBook
     \<and> (\<exists>local.
          (if needsCover matchingBook oldBook
           then \<exists>url. generateCoverImageUrl_call appSvc oldBook = Inr url
                  \<and> local = oldBook\<lparr> coverImageUrl := Some url \<rparr>
           else local = oldBook)
          \<and> (if updatedAt matchingBook > updatedAt oldBook
              then overlaid local matchingBook merged
              else overlaid matchingBook local merged))"
proof -
  have h: "hash matchingBook = hash oldBook"
    using assms(1) by (rule find_hash)
  from assms obtain local where a: "assignCover appSvc matchingBook oldBook = Inr local"
    and m: "merged = mergedBook matchingBook local"
    by (auto simp: processOldBook_def split: sum.splits)
  from a have l: "if needsCover matchingBook oldBook
           then \<exists>url. generateCoverImageUrl_call appSvc oldBook = Inr url
                  \<and> local = oldBook\<lparr> coverImageUrl := Some url \<rparr>
           else local = oldBook"
    by (auto simp: assignCover_def split: if_splits sum.splits)
  then have t: "updatedAt local = updatedAt oldBook"
    by (auto split: if_splits)
  have "if updatedAt matchingBook > updatedAt oldBook
        then overlaid local matchingBook merged
        else overlaid matchingBook local merged"
    unfolding m by (simp add: mergedBook_def overlaid_spread t)
  with h l show ?thesis by blast
qed

theorem processOldBook_overlay_witness:
  "hash exSynced = hash exLocal
   \<and> overlaid (exLocal\<lparr> coverImageUrl := Some Undefined \<rparr>) exSynced
        (mergedBook exSynced (exLocal\<lparr> coverImageUrl := Some Undefined \<rparr>))"
proof -
  have f: "find (\<lambda>newBook. hash newBook = hash exLocal) [exSynced] = Some exSynced"
    by (simp add: exLocal_def exSynced_def mkBook_def)
  have n: "needsCover exSynced exLocal"
    by (simp add: needsCover_def truthy_def get_def exLocal_def exSynced_def mkBook_def)
  have g: "generateCoverImageUrl_call None exLocal = Inr Undefined"
    by (simp add: generateCoverImageUrl_call_def)
  have u: "updatedAt exSynced > updatedAt exLocal"
    by (simp add: exLocal_def exSynced_def mkBook_def)
  from processOldBook_overlay [OF f processOldBook_evaluated] n g u show ?thesis
    by auto
qed

section \<open>The selection of local changes\<close>

text \<open>
  C3. With a user signed in and cursor \<open>C\<close>, a record of the library is in the payload of
  push and of autosync exactly when \<open>C < updatedAt\<close> or \<open>C < (deletedAt ?? 0)\<close>. So a
  record with \<open>updatedAt = C + 1\<close> and no \<open>deletedAt\<close> is selected, a record with
  \<open>updatedAt = C - 1\<close> and \<open>deletedAt = C + 1\<close> is selected, and a record with both
  timestamps below \<open>C\<close> is not.
\<close>

theorem getNewBooks_selection:
  "\<exists>sel. books (getNewBooks True C lib) = Some sel
     \<and> pushLibrary True C lib = Some (Some sel, Push)
     \<and> (C \<noteq> 0 \<longrightarrow> handleAutoSync True C lib = Some (Some sel, Both))
     \<and> (\<forall>b. b \<in> set sel \<longleftrightarrow>
            b \<in> set lib \<and> (C < updatedAt b \<or> C < (case get (deletedAt b) of Val d \<Rightarrow> d | _ \<Rightarrow> 0)))
     \<and> (\<forall>b \<in> set lib. updatedAt b = C + 1 \<and> deletedAt b = None \<longrightarrow> b \<in> set sel)
     \<and> (\<forall>b \<in> set lib. updatedAt b = C - 1 \<and> deletedAt b = Some (Val (C + 1)) \<longrightarrow> b \<in> set sel)
     \<and> (\<forall>b d. updatedAt b < C \<and> deletedAt b = Some (Val d) \<and> d < C \<longrightarrow> b \<notin> set sel)"
  by (auto simp: getNewBooks_def pushLibrary_def handleAutoSync_def changedSince_def
      nullish_or_def get_def split: jsopt.splits option.splits)

theorem getNewBooks_selection_witness:
  "books (getNewBooks True 100 exChanged) =
     Some [mkBook ''a'' 101, (mkBook ''b'' 99)\<lparr> deletedAt := Some (Val 101) \<rparr>]"
proof -
  from getNewBooks_selection [of 100 exChanged] obtain sel
    where s: "books (getNewBooks True 100 exChanged) = Some sel"
    by blast
  then have "sel = filter (changedSince 100) exChanged"
    by (simp add: getNewBooks_def)
  then have "sel = [mkBook ''a'' 101, (mkBook ''b'' 99)\<lparr> deletedAt := Some (Val 101) \<rparr>]"
    by (simp add: exChanged_def changedSince_def nullish_or_def get_def mkBook_def)
  with s show ?thesis by simp
qed

section \<open>Autosync\<close>

text \<open>
  C6, as stated, fails: with a cursor of 100 and no record changed since, autosync still
  calls the gateway (with an empty payload), and with a cursor of 0 it makes no call though
  a record has changed.
\<close>

theorem handleAutoSync_counterexample:
  "filter (changedSince 100) [mkBook ''c'' 99] = []
   \<and> handleAutoSync True 100 [mkBook ''c'' 99] = Some (Some [], Both)
   \<and> filter (changedSince 0) [mkBook ''a'' 101] = [mkBook ''a'' 101]
   \<and> handleAutoSync True 0 [mkBook ''a'' 101] = None"
  by (simp add: handleAutoSync_def getNewBooks_def changedSince_def nullish_or_def get_def mkBook_def)

text \<open>
  C6, amended. An autosync trigger makes a bidirectional sync call exactly when a user is
  signed in and the cursor is not zero; the payload is the selection of local changes,
  which may be empty.
\<close>

theorem handleAutoSync_cursor_guard:
  "handleAutoSync user C lib =
     (if user \<and> C \<noteq> 0 then Some (Some (filter (changedSince C) lib), Both) else None)"
  by (simp add: handleAutoSync_def getNewBooks_def)

theorem handleAutoSync_cursor_guard_witness:
  "handleAutoSync True 100 exChanged =
     Some (Some [mkBook ''a'' 101, (mkBook ''b'' 99)\<lparr> deletedAt := Some (Val 101) \<rparr>], Both)"
  using handleAutoSync_cursor_guard [of True 100 exChanged]
  by (simp add: exChanged_def changedSince_def nullish_or_def get_def mkBook_def)

section \<open>Single-flight pull\<close>

lemma pullStep_latch:
  "suspended s = (if isPulling s then 1 else 0)
   \<Longrightarrow> suspended (pullStep s ev) = (if isPulling (pullStep s ev) then 1 else 0)"
  by (cases ev) (auto simp: pullLibrary_enter_def pullLibrary_resume_def)

lemma pullRun_latch:
  "suspended s = (if isPulling s then 1 else 0)
   \<Longrightarrow> suspended (pullRun s evs) = (if isPulling (pullRun s evs) then 1 else 0)"
  unfolding pullRun_def
proof (induction evs arbitrary: s)
  case Nil
  then show ?case by simp
next
  case (Cons ev evs)
  from Cons.prems have "suspended (pullStep s ev) = (if isPulling (pullStep s ev) then 1 else 0)"
    by (rule pullStep_latch)
  then show ?case using Cons.IH by simp
qed

text \<open>
  C4. While the latch is set, a call of \<open>pull()\<close> returns at once, without error, and
  leaves the controller as it is: no gateway call is made. Two calls in a row on a free
  latch make exactly one gateway call. When the gateway call settles, with success or
  failure, the latch is released and the outcome reaches the caller. Whatever the order of
  calls and settlements, at most one pull is suspended at the gateway, and the latch is set
  exactly while one is.
\<close>

theorem pullLibrary_single_flight:
  "(isPulling s \<longrightarrow> pullLibrary_enter user s = (Returned, s))
   \<and> (user \<and> \<not> isPulling s \<longrightarrow>
        gatewayCalls (pullRun s [PullCalled user, PullCalled user])
          = gatewayCalls s @ [(Some [], Pull)])
   \<and> \<not> isPulling (snd (pullLibrary_resume outcome s))
   \<and> fst (pullLibrary_resume outcome s) = outcome
   \<and> suspended (pullRun idle evs) \<le> 1
   \<and> (isPulling (pullRun idle evs) \<longleftrightarrow> suspended (pullRun idle evs) = 1)"
proof -
  have "suspended (pullRun idle evs) = (if isPulling (pullRun idle evs) then 1 else 0)"
    by (rule pullRun_latch) (simp add: idle_def)
  then show ?thesis
    by (auto simp: pullLibrary_enter_def pullLibrary_resume_def pullRun_def)
qed

theorem pullLibrary_single_flight_witness:
  "gatewayCalls (pullRun idle [PullCalled True, PullCalled True]) = [(Some [], Pull)]
   \<and> \<not> isPulling (pullRun idle [PullCalled True, PullCalled True, GatewaySettled (Inl Rejected)])
   \<and> gatewayCalls (pullRun idle [PullCalled True, PullCalled True, GatewaySettled (Inl Rejected),
         PullCalled True]) = [(Some [], Pull), (Some [], Pull)]"
  using pullLibrary_single_flight [of idle True "Inr ()" "[]"]
  by (simp add: idle_def pullRun_def pullLibrary_enter_def pullLibrary_resume_def)

section \<open>The libraries a merge writes to the store\<close>

lemma promise_all_map_Inr: "promise_all (map Inr xs) = Inr xs"
  by (induction xs) auto

lemma promise_all_Inr: "promise_all ps = Inr xs \<longleftrightarrow> ps = map Inr xs"
proof
  show "promise_all ps = Inr xs \<Longrightarrow> ps = map Inr xs"
    by (induction ps arbitrary: xs rule: promise_all.induct) (auto split: sum.splits)
  show "ps = map Inr xs \<Longrightarrow> promise_all ps = Inr xs"
    by (simp add: promise_all_map_Inr)
qed

lemma assignCover_shape:
  "assignCover appSvc m b = Inr b' \<Longrightarrow> b' = b \<or> (\<exists>url. b' = b\<lparr> coverImageUrl := Some url \<rparr>)"
  by (auto simp: assignCover_def split: if_splits sum.splits)

lemma processOldBook_hash: "processOldBook appSvc sb b = Inr r \<Longrightarrow> hash r = hash b"
  by (auto simp: processOldBook_def mergedBook_def spread_def
      dest!: find_hash assignCover_shape split: option.splits sum.splits if_splits)

lemma processNewBook_shape:
  "processNewBook appSvc b = Inr r \<Longrightarrow> \<exists>url. r = b\<lparr> coverImageUrl := Some url \<rparr>"
  by (auto simp: processNewBook_def split: sum.splits)

lemma processNewBook_hash: "processNewBook appSvc b = Inr r \<Longrightarrow> hash r = hash b"
  by (auto dest: processNewBook_shape)

lemma writeCovers_keeps [simp]:
  "hash (writeCovers appSvc b) = hash b"
  "updatedAt (writeCovers appSvc b) = updatedAt b"
  "deletedAt (writeCovers appSvc b) = deletedAt b"
  "uploadedAt (writeCovers appSvc b) = uploadedAt b"
  "rest (writeCovers appSvc b) = rest b"
  by (simp_all add: writeCovers_def split: option.splits)

lemma arrives_hash: "arrives appSvc b = Inr r \<Longrightarrow> hash r = hash b"
  by (auto simp: arrives_def dest: processNewBook_hash)

lemma downloadBookCovers_call_written:
  "downloadBookCovers_call appSvc batch = Inr written \<Longrightarrow> written = map (writeCovers appSvc) batch"
proof (cases appSvc)
  case None
  have "map (writeCovers None) batch = batch"
    by (induction batch) (simp_all add: writeCovers_def)
  moreover assume "downloadBookCovers_call appSvc batch = Inr written"
  ultimately show ?thesis using None by (simp add: downloadBookCovers_call_def)
next
  case (Some svc)
  moreover assume "downloadBookCovers_call appSvc batch = Inr written"
  ultimately show ?thesis
    by (auto simp: downloadBookCovers_call_def split: sum.splits)
qed

lemma map_hash_coversDownloaded [simp]:
  "map hash (coversDownloaded appSvc hs lib) = map hash lib"
  by (simp add: coversDownloaded_def)

lemma length_coversDownloaded [simp]: "length (coversDownloaded appSvc hs lib) = length lib"
  by (simp add: coversDownloaded_def)

lemma map_Inr_hashes:
  "map f xs = map Inr ys \<Longrightarrow> (\<And>x y. f x = Inr y \<Longrightarrow> hash y = hash x)
   \<Longrightarrow> map hash ys = map hash xs"
proof (induction xs arbitrary: ys)
  case Nil
  then show ?case by simp
next
  case (Cons x xs)
  then show ?case by (cases ys) auto
qed

lemma hydrateNewBooks_snapshots:
  "hydrateNewBooks appSvc nb i acc = (evs, r) \<Longrightarrow> SetLibrary l \<in> set evs
   \<Longrightarrow> \<exists>k pushed. map (arrives appSvc) (take k (drop i nb)) = map Inr pushed
         \<and> l = acc @ pushed"
proof (induction appSvc nb i acc arbitrary: evs r rule: hydrateNewBooks.induct)
  case (1 appSvc nb i acc)
  show ?case
  proof (cases "i < length nb")
    case False
    with "1.prems" show ?thesis by (simp add: hydrateNewBooks.simps)
  next
    case True
    define batch where "batch = take batchSize (drop i nb)"
    from "1.prems" True obtain written pushed where
      d: "downloadBookCovers_call appSvc batch = Inr written"
      and p: "promise_all (map (processNewBook appSvc) written) = Inr pushed"
      by (auto simp: hydrateNewBooks.simps [of appSvc nb i acc] batch_def Let_def
          split: sum.splits)
    obtain evs' r' where
      rec: "hydrateNewBooks appSvc nb (i + batchSize) (acc @ pushed) = (evs', r')"
      by (cases "hydrateNewBooks appSvc nb (i + batchSize) (acc @ pushed)")
    from "1.prems"(1) True d p rec have
      evs: "evs = SetLibrary (acc @ pushed)
                  # SetSyncProgress (min (of_nat (i + batchSize) / of_nat (length nb)) 1) # evs'"
      by (simp add: hydrateNewBooks.simps [of appSvc nb i acc] batch_def Let_def)
    from p downloadBookCovers_call_written [OF d]
    have pm: "map (arrives appSvc) batch = map Inr pushed"
      by (simp add: promise_all_Inr arrives_def [abs_def] o_def)
    from "1.prems"(2) evs consider "l = acc @ pushed" | "SetLibrary l \<in> set evs'" by auto
    then show ?thesis
    proof cases
      case 1
      with pm show ?thesis unfolding batch_def by blast
    next
      case 2
      from "1.IH" [OF True batch_def d p refl refl rec 2] obtain k pushed'
        where k: "map (arrives appSvc) (take k (drop (i + batchSize) nb)) = map Inr pushed'"
          and l: "l = (acc @ pushed) @ pushed'"
        by blast
      have "take (batchSize + k) (drop i nb) = batch @ take k (drop (i + batchSize) nb)"
        by (simp add: batch_def take_add add.commute)
      with pm k have "map (arrives appSvc) (take (batchSize + k) (drop i nb))
                        = map Inr (pushed @ pushed')"
        by simp
      with l show ?thesis by auto
    qed
  qed
qed


lemma hydrateNewBooks_final:
  "hydrateNewBooks appSvc nb i acc = (evs, Inr final)
   \<Longrightarrow> \<exists>pushed. map (arrives appSvc) (drop i nb) = map Inr pushed \<and> final = acc @ pushed"
proof (induction appSvc nb i acc arbitrary: evs rule: hydrateNewBooks.induct)
  case (1 appSvc nb i acc)
  show ?case
  proof (cases "i < length nb")
    case False
    with "1.prems" show ?thesis by (simp add: hydrateNewBooks.simps)
  next
    case True
    define batch where "batch = take batchSize (drop i nb)"
    from "1.prems" True obtain written pushed where
      d: "downloadBookCovers_call appSvc batch = Inr written"
      and p: "promise_all (map (processNewBook appSvc) written) = Inr pushed"
      by (auto simp: hydrateNewBooks.simps [of appSvc nb i acc] batch_def Let_def
          split: sum.splits)
    obtain evs' r' where
      rec: "hydrateNewBooks appSvc nb (i + batchSize) (acc @ pushed) = (evs', r')"
      by (cases "hydrateNewBooks appSvc nb (i + batchSize) (acc @ pushed)")
    from "1.prems"(1) True d p rec have r': "r' = Inr final"
      by (simp add: hydrateNewBooks.simps [of appSvc nb i acc] batch_def Let_def)
    from p downloadBookCovers_call_written [OF d]
    have pm: "map (arrives appSvc) batch = map Inr pushed"
      by (simp add: promise_all_Inr arrives_def [abs_def] o_def)
    from "1.IH" [OF True batch_def d p refl refl rec [unfolded r']] obtain pushed'
      where k: "map (arrives appSvc) (drop (i + batchSize) nb) = map Inr pushed'"
        and l: "final = (acc @ pushed) @ pushed'"
      by blast
    have "drop i nb = batch @ drop (i + batchSize) nb"
      using append_take_drop_id [of batchSize "drop i nb"]
      by (simp add: batch_def add.commute)
    with pm k have "map (arrives appSvc) (drop i nb) = map Inr (pushed @ pushed')"
      by simp
    with l show ?thesis by auto
  qed
qed

text \<open>Every library written to the store by a merge: the merged records, then new ones.\<close>

lemma updateLibrary_snapshots:
  assumes "updateLibrary appSvc lib syn sbo = (evs, r)" and "SetLibrary l \<in> set evs"
  shows "\<exists>sb ul k pushed. sbo = Some sb
           \<and> map (processOldBook appSvc (sort_key updatedAt sb))
                 (coversDownloaded appSvc (set (map hash (sort_key updatedAt sb))) lib)
               = map Inr ul
           \<and> map (arrives appSvc)
                 (take k (filter (isNewBook (set (map hash lib))) (sort_key updatedAt sb)))
               = map Inr pushed
           \<and> l = ul @ pushed"
proof -
  from assms obtain sb where sb: "sbo = Some sb" and ne: "length sb \<noteq> 0" and syn: "\<not> syn"
    by (auto simp: updateLibrary_def split: if_splits option.splits)
  define sorted where "sorted = sort_key updatedAt sb"
  define lib' where "lib' = coversDownloaded appSvc (set (map hash sorted)) lib"
  from assms sb ne syn obtain ul where
    ul: "promise_all (map (processOldBook appSvc sorted) lib') = Inr ul"
    by (auto simp: updateLibrary_def Let_def sorted_def lib'_def split: sum.splits)
  then have ulm: "map (processOldBook appSvc sorted) lib' = map Inr ul"
    by (simp add: promise_all_Inr)
  then have "map hash ul = map hash lib'"
    by (rule map_Inr_hashes) (rule processOldBook_hash)
  then have hs: "set (map hash ul) = set (map hash lib)"
    by (simp add: lib'_def del: set_map)
  define nb where "nb = filter (isNewBook (set (map hash lib))) sorted"
  obtain evs' r' where h: "hydrateNewBooks appSvc nb 0 ul = (evs', r')"
    by (cases "hydrateNewBooks appSvc nb 0 ul")
  from assms sb ne syn ul hs h consider "SetLibrary l \<in> set evs'"
    | final where "r' = Inr final" "l = final"
    by (auto simp: updateLibrary_def Let_def sorted_def nb_def lib'_def
        split: sum.splits if_splits option.splits)
  then show ?thesis
  proof cases
    case 1
    from hydrateNewBooks_snapshots [OF h 1] ulm sb show ?thesis
      unfolding nb_def sorted_def lib'_def by auto
  next
    case 2
    from hydrateNewBooks_final [OF h [unfolded 2(1)]] obtain pushed
      where "map (arrives appSvc) (take (length nb) nb) = map Inr pushed"
        and "l = ul @ pushed"
      using 2(2) by auto
    with ulm sb show ?thesis unfolding nb_def sorted_def lib'_def by blast
  qed
qed

lemma library_foldl_applyEvent:
  "library (foldl applyEvent st evs) = library st
   \<or> SetLibrary (library (foldl applyEvent st evs)) \<in> set evs"
proof (induction evs rule: rev_induct)
  case Nil
  then show ?case by simp
next
  case (snoc ev evs)
  then show ?case by (cases ev) auto
qed

lemma runMerge_library:
  "library (fst (runMerge appSvc st sbo)) = library st
   \<or> (\<exists>sb ul k pushed. sbo = Some sb
        \<and> map (processOldBook appSvc (sort_key updatedAt sb))
              (coversDownloaded appSvc (set (map hash (sort_key updatedAt sb))) (library st))
            = map Inr ul
        \<and> map (arrives appSvc)
              (take k (filter (isNewBook (set (map hash (library st)))) (sort_key updatedAt sb)))
            = map Inr pushed
        \<and> library (fst (runMerge appSvc st sbo)) = ul @ pushed)"
proof -
  obtain evs r where u: "updateLibrary appSvc (library st) (isSyncing st) sbo = (evs, r)"
    by (cases "updateLibrary appSvc (library st) (isSyncing st) sbo")
  then have f: "fst (runMerge appSvc st sbo) = foldl applyEvent st evs"
    by (simp add: runMerge_def)
  from library_foldl_applyEvent [of st evs] show ?thesis
  proof
    assume "library (foldl applyEvent st evs) = library st"
    with f show ?thesis by simp
  next
    assume "SetLibrary (library (foldl applyEvent st evs)) \<in> set evs"
    from updateLibrary_snapshots [OF u this] f show ?thesis by simp
  qed
qed

lemma map_Inr_length: "map f xs = map Inr ys \<Longrightarrow> length ys = length xs"
  by (metis length_map)

section \<open>Records stay in the library\<close>

text \<open>
  C9. A record of the library that is a tombstone (\<open>deletedAt\<close> set) has, after a merge
  cycle, whatever the batch and however the cycle ends, a record with its hash in the
  library of the store. The proof does not use that the record is a tombstone: the merge
  removes no record at all.
\<close>

theorem runMerge_keeps_hashes:
  assumes "b \<in> set (library st)" and "truthy (deletedAt b)"
  shows "\<exists>b' \<in> set (library (fst (runMerge appSvc st sbo))). hash b' = hash b"
proof -
  from runMerge_library [of appSvc st sbo] show ?thesis
  proof (elim disjE exE conjE)
    assume "library (fst (runMerge appSvc st sbo)) = library st"
    with assms show ?thesis by auto
  next
    fix sb ul k pushed
    assume m: "map (processOldBook appSvc (sort_key updatedAt sb))
                 (coversDownloaded appSvc (set (map hash (sort_key updatedAt sb))) (library st))
               = map Inr ul"
      and l: "library (fst (runMerge appSvc st sbo)) = ul @ pushed"
    from m have "map hash ul
                 = map hash (coversDownloaded appSvc (set (map hash (sort_key updatedAt sb))) (library st))"
      by (rule map_Inr_hashes) (rule processOldBook_hash)
    then have "map hash ul = map hash (library st)"
      by (simp only: map_hash_coversDownloaded)
    with assms(1) have "hash b \<in> set (map hash ul)" by simp
    then obtain b' where "b' \<in> set ul" and "hash b' = hash b" by auto
    with l show ?thesis by auto
  qed
qed

theorem runMerge_keeps_hashes_witness:
  "\<exists>b' \<in> set (library (fst (runMerge None (storeOf [exTomb]) (Some [exLate, exArrived])))).
      hash b' = ''h1''"
  using runMerge_keeps_hashes [of exTomb "storeOf [exTomb]" None "Some [exLate, exArrived]"]
  by (simp add: storeOf_def truthy_def get_def exTomb_def mkBook_def)


section \<open>Unique hashes\<close>

text \<open>
  C8, as stated, fails: merging a batch of two uploaded records with the same hash into an
  empty library gives a library with that hash twice.
\<close>

theorem runMerge_distinct_hashes_counterexample:
  "distinct (map hash (library (storeOf [])))
   \<and> map hash (library (fst (runMerge None (storeOf []) (Some [exTwin1, exTwin2])))) = [''n1'', ''n1'']"
  by (simp add: eval_defs exTwin1_def exTwin2_def storeOf_def)

lemma distinct_map_sort_key:
  "distinct (map g (sort_key f xs)) \<longleftrightarrow> distinct (map g xs)"
  by (simp add: distinct_map)

text \<open>
  C8, amended. If the hashes of the library are unique, and the records of the batch that are
  new to the library (hash not in the library, uploaded, not deleted) have pairwise
  different hashes, then the hashes of the library in the store are unique after the merge
  cycle. The batch may hold several records with the hash of a library record, and
  duplicates among its deleted or not uploaded records.
\<close>

theorem runMerge_distinct_hashes:
  assumes "distinct (map hash (library st))"
    and "distinct (map hash (filter (isNewBook (set (map hash (library st)))) sb))"
  shows "distinct (map hash (library (fst (runMerge appSvc st (Some sb)))))"
proof -
  define nbs where
    "nbs = filter (isNewBook (set (map hash (library st)))) (sort_key updatedAt sb)"
  have "nbs = sort_key updatedAt (filter (isNewBook (set (map hash (library st)))) sb)"
    by (simp add: nbs_def filter_sort)
  with assms(2) have dn: "distinct (map hash nbs)"
    by (simp only: distinct_map_sort_key)
  have fresh: "hash x \<notin> set (map hash (library st))" if "x \<in> set nbs" for x
    using that by (simp add: nbs_def isNewBook_def)
  from runMerge_library [of appSvc st "Some sb"] show ?thesis
  proof (elim disjE exE conjE)
    assume "library (fst (runMerge appSvc st (Some sb))) = library st"
    with assms(1) show ?thesis by simp
  next
    fix sb' ul k pushed
    assume sb': "Some sb = Some sb'"
      and m: "map (processOldBook appSvc (sort_key updatedAt sb'))
                (coversDownloaded appSvc (set (map hash (sort_key updatedAt sb'))) (library st))
              = map Inr ul"
      and p: "map (arrives appSvc)
                (take k (filter (isNewBook (set (map hash (library st)))) (sort_key updatedAt sb')))
              = map Inr pushed"
      and l: "library (fst (runMerge appSvc st (Some sb))) = ul @ pushed"
    from m have "map hash ul
                 = map hash (coversDownloaded appSvc (set (map hash (sort_key updatedAt sb'))) (library st))"
      by (rule map_Inr_hashes) (rule processOldBook_hash)
    then have hu: "map hash ul = map hash (library st)"
      by (simp only: map_hash_coversDownloaded)
    from p sb' have "map (arrives appSvc) (take k nbs) = map Inr pushed"
      by (simp add: nbs_def)
    then have hp: "map hash pushed = map hash (take k nbs)"
      by (rule map_Inr_hashes) (rule arrives_hash)
    have "distinct (take k (map hash nbs))"
      using dn by (rule distinct_take)
    then have d2: "distinct (map hash (take k nbs))" by (simp add: take_map)
    have "set (map hash (library st)) \<inter> set (map hash (take k nbs)) = {}"
    proof -
      have t: "hash x \<notin> set (map hash (library st))" if "x \<in> set (take k nbs)" for x
        using that fresh [of x] by (blast dest: in_set_takeD)
      show ?thesis
      proof (rule ccontr)
        assume "set (map hash (library st)) \<inter> set (map hash (take k nbs)) \<noteq> {}"
        then obtain h where h1: "h \<in> set (map hash (library st))"
          and h2: "h \<in> set (map hash (take k nbs))"
          by blast
        from h2 obtain x where "x \<in> set (take k nbs)" and "hash x = h" by auto
        with t [of x] h1 show False by simp
      qed
    qed
    with assms(1) d2 have "distinct (map hash (library st) @ map hash (take k nbs))"
      by (simp only: distinct_append)
    with hu hp l show ?thesis by simp
  qed
qed

theorem runMerge_distinct_hashes_witness:
  "distinct (map hash (library (fst (runMerge None (storeOf [exShelf])
      (Some [exLate, exEarly, exArrived])))))"
  using runMerge_distinct_hashes [of "storeOf [exShelf]" "[exLate, exEarly, exArrived]" None]
  by (simp add: storeOf_def isNewBook_def truthy_def get_def
      exLate_def exEarly_def exArrived_def exShelf_def mkBook_def)

section \<open>Two synced records with one hash\<close>

lemma updateLibrary_twins:
  "updateLibrary None [exShelf] False (Some [exLate, exEarly])
     = ([SetLibrary [mergedBook exEarly exShelf]], Inr ())"
  by (simp add: eval_defs exShelf_def exEarly_def exLate_def)

text \<open>
  C7, as stated, fails: the library holds one record, the batch two records with its hash,
  with \<open>updatedAt\<close> 2 and 1. The merged record has the title of the synced record with the
  smaller \<open>updatedAt\<close>; merging with the larger one would give the other title.
\<close>

theorem updateLibrary_first_match_counterexample:
  "updateLibrary None [exShelf] False (Some [exLate, exEarly])
     = ([SetLibrary [mergedBook exEarly exShelf]], Inr ())
   \<and> updatedAt exEarly < updatedAt exLate
   \<and> rest (mergedBook exEarly exShelf) ''title'' = Some (JStr ''early'')
   \<and> rest (mergedBook exLate exShelf) ''title'' = Some (JStr ''late'')"
  using updateLibrary_twins
  by (simp add: mergedBook_def spread_def exShelf_def exEarly_def exLate_def mkBook_def)

lemma find_sorted_least:
  "sorted (map f xs) \<Longrightarrow> find P xs = Some m \<Longrightarrow> x \<in> set xs \<Longrightarrow> P x \<Longrightarrow> f m \<le> f x"
  by (induction xs) (auto split: if_splits)

lemma find_Some_mem: "find P xs = Some m \<Longrightarrow> m \<in> set xs \<and> P m"
  by (induction xs) (auto split: if_splits)

lemma find_sorted_first:
  assumes "s \<in> set sb" and "P s"
  shows "\<exists>m. find P (sort_key f sb) = Some m \<and> m \<in> set sb \<and> P m
           \<and> (\<forall>s' \<in> set sb. P s' \<longrightarrow> f m \<le> f s')"
proof -
  from assms have "find P (sort_key f sb) \<noteq> None"
    by (auto simp: find_None_iff)
  then obtain m where m: "find P (sort_key f sb) = Some m" by auto
  from find_Some_mem [OF m] have "m \<in> set sb" and "P m"
    by simp_all
  moreover have "f m \<le> f s'" if "s' \<in> set sb" "P s'" for s'
    using find_sorted_least [of f "sort_key f sb" P m s'] m that by simp
  ultimately show ?thesis using m by blast
qed

text \<open>
  C7, amended. When records of the batch share the hash of a library record, the merged
  record, in every library the cycle writes to the store, comes from the first of them in
  the batch sorted ascending by \<open>updatedAt\<close>: a synced record whose \<open>updatedAt\<close> is the
  smallest among them. It is merged with the library record as the cover hydration of the
  cycle leaves it (\<open>old\<close> after the cover download, \<open>local\<close> after the cover URL
  assignment).
\<close>

theorem updateLibrary_first_match:
  assumes "updateLibrary appSvc lib syn (Some sb) = (evs, r)"
    and "SetLibrary l \<in> set evs"
    and "i < length lib"
    and "s \<in> set sb" and "hash s = hash (lib ! i)"
  shows "\<exists>m old local.
             find (\<lambda>newBook. hash newBook = hash (lib ! i)) (sort_key updatedAt sb) = Some m
           \<and> m \<in> set sb \<and> hash m = hash (lib ! i)
           \<and> (\<forall>s' \<in> set sb. hash s' = hash (lib ! i) \<longrightarrow> updatedAt m \<le> updatedAt s')
           \<and> old = coversDownloaded appSvc (set (map hash (sort_key updatedAt sb))) lib ! i
           \<and> assignCover appSvc m old = Inr local
           \<and> l ! i = mergedBook m local"
proof -
  from find_sorted_first [of s sb "\<lambda>n. hash n = hash (lib ! i)" updatedAt] assms(4,5)
  obtain m where f: "find (\<lambda>n. hash n = hash (lib ! i)) (sort_key updatedAt sb) = Some m"
    and m: "m \<in> set sb" "hash m = hash (lib ! i)"
      "\<forall>s' \<in> set sb. hash s' = hash (lib ! i) \<longrightarrow> updatedAt m \<le> updatedAt s'"
    by blast
  define lib' where "lib' = coversDownloaded appSvc (set (map hash (sort_key updatedAt sb))) lib"
  from updateLibrary_snapshots [OF assms(1,2)] obtain sb' ul k pushed
    where "Some sb = Some sb'"
      and "map (processOldBook appSvc (sort_key updatedAt sb'))
             (coversDownloaded appSvc (set (map hash (sort_key updatedAt sb'))) lib) = map Inr ul"
      and l: "l = ul @ pushed"
    by blast
  then have u: "map (processOldBook appSvc (sort_key updatedAt sb)) lib' = map Inr ul"
    by (simp add: lib'_def)
  have len': "length lib' = length lib" by (simp add: lib'_def)
  from u have "length ul = length lib'" by (rule map_Inr_length)
  with len' have len: "length ul = length lib" by simp
  from u have "map (processOldBook appSvc (sort_key updatedAt sb)) lib' ! i = map Inr ul ! i"
    by simp
  with assms(3) len len' have p: "processOldBook appSvc (sort_key updatedAt sb) (lib' ! i) = Inr (ul ! i)"
    by simp
  have h: "hash (lib' ! i) = hash (lib ! i)"
  proof -
    have "map hash lib' = map hash lib" by (simp only: lib'_def map_hash_coversDownloaded)
    then have "map hash lib' ! i = map hash lib ! i" by simp
    with assms(3) len' show ?thesis by simp
  qed
  from p f h obtain local where a: "assignCover appSvc m (lib' ! i) = Inr local"
    and e: "ul ! i = mergedBook m local"
    by (auto simp: processOldBook_def split: sum.splits)
  from l len assms(3) have "l ! i = ul ! i" by (simp add: nth_append)
  with e have "l ! i = mergedBook m local" by simp
  with f m a show ?thesis unfolding lib'_def by blast
qed

theorem updateLibrary_first_match_witness:
  "\<exists>m local. find (\<lambda>newBook. hash newBook = hash exShelf) (sort_key updatedAt [exLate, exEarly]) = Some m
      \<and> updatedAt m \<le> updatedAt exLate \<and> updatedAt m \<le> updatedAt exEarly
      \<and> assignCover None m exShelf = Inr local
      \<and> mergedBook exEarly exShelf = mergedBook m local"
proof -
  have "SetLibrary [mergedBook exEarly exShelf] \<in> set [SetLibrary [mergedBook exEarly exShelf]]"
    and "0 < length [exShelf]" and "exLate \<in> set [exLate, exEarly]"
    and "hash exLate = hash ([exShelf] ! 0)"
    by (simp_all add: exLate_def exShelf_def mkBook_def)
  from updateLibrary_first_match [OF updateLibrary_twins this]
  obtain m local where
    "find (\<lambda>newBook. hash newBook = hash ([exShelf] ! 0)) (sort_key updatedAt [exLate, exEarly]) = Some m"
    "\<forall>s' \<in> set [exLate, exEarly]. hash s' = hash ([exShelf] ! 0) \<longrightarrow> updatedAt m \<le> updatedAt s'"
    "assignCover None m
       (coversDownloaded None (set (map hash (sort_key updatedAt [exLate, exEarly]))) [exShelf] ! 0)
     = Inr local"
    "[mergedBook exEarly exShelf] ! 0 = mergedBook m local"
    by blast
  moreover have "hash exLate = hash exShelf" and "hash exEarly = hash exShelf"
    by (simp_all add: exLate_def exEarly_def exShelf_def mkBook_def)
  moreover have "coversDownloaded None hs [exShelf] ! 0 = exShelf" for hs
    by (simp add: coversDownloaded_def writeCovers_def)
  ultimately have "find (\<lambda>newBook. hash newBook = hash exShelf) (sort_key updatedAt [exLate, exEarly]) = Some m
      \<and> updatedAt m \<le> updatedAt exLate \<and> updatedAt m \<le> updatedAt exEarly
      \<and> assignCover None m exShelf = Inr local
      \<and> mergedBook exEarly exShelf = mergedBook m local"
    by simp
  then show ?thesis by blast
qed

section \<open>Progress of a cycle with 25 new records\<close>

lemma reliable_downloadOldCovers: "reliable appSvc \<Longrightarrow> downloadOldCovers appSvc xs i = Inr ()"
proof (induction appSvc xs i rule: downloadOldCovers.induct)
  case (1 appSvc xs i)
  show ?case
  proof (cases "i < length xs")
    case False
    then show ?thesis by (simp add: downloadOldCovers.simps)
  next
    case True
    from "1.prems" obtain written
      where d: "downloadBookCovers_call appSvc (take oldBooksBatchSize (drop i xs)) = Inr written"
      unfolding reliable_def by blast
    from "1.IH" [OF True d "1.prems"] True d show ?thesis
      by (simp add: downloadOldCovers.simps [of appSvc xs i])
  qed
qed

lemma reliable_processOldBook: "reliable appSvc \<Longrightarrow> \<exists>r. processOldBook appSvc sb b = Inr r"
proof -
  assume r: "reliable appSvc"
  then obtain url where "generateCoverImageUrl_call appSvc b = Inr url"
    unfolding reliable_def by blast
  then have a: "\<exists>b'. assignCover appSvc m b = Inr b'" for m
    by (simp add: assignCover_def)
  show ?thesis
  proof (cases "find (\<lambda>newBook. hash newBook = hash b) sb")
    case None
    then show ?thesis by (simp add: processOldBook_def)
  next
    case (Some m)
    from a [of m] obtain b' where "assignCover appSvc m b = Inr b'" by blast
    with Some show ?thesis by (simp add: processOldBook_def)
  qed
qed

lemma reliable_processNewBook: "reliable appSvc \<Longrightarrow> \<exists>r. processNewBook appSvc b = Inr r"
proof -
  assume r: "reliable appSvc"
  then obtain url where "generateCoverImageUrl_call appSvc b = Inr url"
    unfolding reliable_def by blast
  then show ?thesis by (simp add: processNewBook_def)
qed

lemma reliable_arrives: "reliable appSvc \<Longrightarrow> \<exists>r. arrives appSvc b = Inr r"
  unfolding arrives_def by (rule reliable_processNewBook)

lemma all_Inr_map: "(\<And>x. \<exists>y. f x = Inr y) \<Longrightarrow> \<exists>ys. map f xs = map Inr ys"
proof (induction xs)
  case Nil
  then show ?case by simp
next
  case (Cons x xs)
  then obtain ys where "map f xs = map Inr ys" by blast
  moreover from Cons.prems obtain y where "f x = Inr y" by blast
  ultimately have "map f (x # xs) = map Inr (y # ys)" by simp
  then show ?case by blast
qed

lemma hydrateNewBooks_done:
  "\<not> i < length nb \<Longrightarrow> hydrateNewBooks appSvc nb i acc = ([], Inr acc)"
  by (simp add: hydrateNewBooks.simps)

lemma hydrateNewBooks_step:
  assumes "reliable appSvc" and "i < length nb"
  shows "\<exists>pushed. length pushed = min batchSize (length nb - i)
           \<and> hydrateNewBooks appSvc nb i acc =
               (SetLibrary (acc @ pushed)
                  # SetSyncProgress (min (of_nat (i + batchSize) / of_nat (length nb)) 1)
                  # fst (hydrateNewBooks appSvc nb (i + batchSize) (acc @ pushed)),
                snd (hydrateNewBooks appSvc nb (i + batchSize) (acc @ pushed)))"
proof -
  define batch where "batch = take batchSize (drop i nb)"
  from assms(1) obtain written where d: "downloadBookCovers_call appSvc batch = Inr written"
    unfolding reliable_def by blast
  from all_Inr_map [of "arrives appSvc" batch] reliable_arrives [OF assms(1)]
  obtain pushed where p: "map (arrives appSvc) batch = map Inr pushed" by blast
  then have len: "length pushed = min batchSize (length nb - i)"
    using map_Inr_length [OF p] by (simp add: batch_def)
  from p downloadBookCovers_call_written [OF d]
  have "promise_all (map (processNewBook appSvc) written) = Inr pushed"
    by (simp add: promise_all_Inr arrives_def [abs_def] o_def)
  with d assms(2) have "hydrateNewBooks appSvc nb i acc =
               (SetLibrary (acc @ pushed)
                  # SetSyncProgress (min (of_nat (i + batchSize) / of_nat (length nb)) 1)
                  # fst (hydrateNewBooks appSvc nb (i + batchSize) (acc @ pushed)),
                snd (hydrateNewBooks appSvc nb (i + batchSize) (acc @ pushed)))"
    by (simp add: hydrateNewBooks.simps [of appSvc nb i acc] batch_def Let_def split: prod.splits)
  with len show ?thesis by blast
qed

lemma hydrateNewBooks_25:
  assumes "reliable appSvc" and "length nb = 25"
  shows "\<exists>l1 l2 l3. hydrateNewBooks appSvc nb 0 acc =
            ([SetLibrary l1, SetSyncProgress (2 / 5), SetLibrary l2, SetSyncProgress (4 / 5),
              SetLibrary l3, SetSyncProgress 1], Inr l3)
          \<and> length l1 = length acc + 10 \<and> length l2 = length acc + 20
          \<and> length l3 = length acc + 25"
proof -
  from hydrateNewBooks_step [OF assms(1), of 0 nb acc] assms(2) obtain p1
    where p1: "length p1 = 10"
      and s1: "hydrateNewBooks appSvc nb 0 acc =
                 (SetLibrary (acc @ p1) # SetSyncProgress (2 / 5)
                    # fst (hydrateNewBooks appSvc nb 10 (acc @ p1)),
                  snd (hydrateNewBooks appSvc nb 10 (acc @ p1)))"
    by (auto simp: batchSize_def)
  from hydrateNewBooks_step [OF assms(1), of 10 nb "acc @ p1"] assms(2) obtain p2
    where p2: "length p2 = 10"
      and s2: "hydrateNewBooks appSvc nb 10 (acc @ p1) =
                 (SetLibrary ((acc @ p1) @ p2) # SetSyncProgress (4 / 5)
                    # fst (hydrateNewBooks appSvc nb 20 ((acc @ p1) @ p2)),
                  snd (hydrateNewBooks appSvc nb 20 ((acc @ p1) @ p2)))"
    by (auto simp: batchSize_def)
  from hydrateNewBooks_step [OF assms(1), of 20 nb "(acc @ p1) @ p2"] assms(2) obtain p3
    where p3: "length p3 = 5"
      and s3: "hydrateNewBooks appSvc nb 20 ((acc @ p1) @ p2) =
                 (SetLibrary (((acc @ p1) @ p2) @ p3) # SetSyncProgress 1
                    # fst (hydrateNewBooks appSvc nb 30 (((acc @ p1) @ p2) @ p3)),
                  snd (hydrateNewBooks appSvc nb 30 (((acc @ p1) @ p2) @ p3)))"
    by (auto simp: batchSize_def)
  from assms(2) have s4: "hydrateNewBooks appSvc nb 30 (((acc @ p1) @ p2) @ p3)
                          = ([], Inr (((acc @ p1) @ p2) @ p3))"
    by (simp add: hydrateNewBooks_done)
  have "hydrateNewBooks appSvc nb 0 acc =
          ([SetLibrary (acc @ p1), SetSyncProgress (2 / 5), SetLibrary ((acc @ p1) @ p2),
            SetSyncProgress (4 / 5), SetLibrary (((acc @ p1) @ p2) @ p3), SetSyncProgress 1],
           Inr (((acc @ p1) @ p2) @ p3))"
    by (simp only: s1 s2 s3 s4 fst_conv snd_conv)
  moreover have "length (acc @ p1) = length acc + 10"
    and "length ((acc @ p1) @ p2) = length acc + 20"
    and "length (((acc @ p1) @ p2) @ p3) = length acc + 25"
    using p1 p2 p3 by simp_all
  ultimately show ?thesis by blast
qed

lemma length_newlyArrived:
  "length (newlyArrived lib sb) = length (filter (isNewBook (set (map hash lib))) sb)"
  by (simp add: newlyArrived_def filter_sort)

lemma updateLibrary_unfold:
  assumes "sb \<noteq> []"
    and "downloadOldCovers appSvc
           (filter needsDownload
              (filter (\<lambda>b. hash b \<in> set (map hash (sort_key updatedAt sb))) lib)) 0 = Inr u"
    and "map (processOldBook appSvc (sort_key updatedAt sb))
           (coversDownloaded appSvc (set (map hash (sort_key updatedAt sb))) lib) = map Inr ul"
  shows "updateLibrary appSvc lib False (Some sb) =
           (case hydrateNewBooks appSvc (newlyArrived lib sb) 0 ul of
              (evs, Inl e) \<Rightarrow>
                ((if length (newlyArrived lib sb) > 0 then [SetIsSyncing True] else []) @ evs, Inl e)
            | (evs, Inr final) \<Rightarrow>
                ((if length (newlyArrived lib sb) > 0 then [SetIsSyncing True] else [])
                   @ evs @ [SetLibrary final]
                   @ (case appSvc of None \<Rightarrow> [] | Some _ \<Rightarrow> [SaveLibraryBooks final])
                   @ (if length (newlyArrived lib sb) > 0 then [SetIsSyncing False] else []),
                 Inr ()))"
proof -
  from assms(3) have p: "promise_all (map (processOldBook appSvc (sort_key updatedAt sb))
           (coversDownloaded appSvc (set (map hash (sort_key updatedAt sb))) lib)) = Inr ul"
    by (simp add: promise_all_Inr)
  from assms(3) have "map hash ul
      = map hash (coversDownloaded appSvc (set (map hash (sort_key updatedAt sb))) lib)"
    by (rule map_Inr_hashes) (rule processOldBook_hash)
  then have "map hash ul = map hash lib"
    by (simp only: map_hash_coversDownloaded)
  then have hs: "set (map hash ul) = set (map hash lib)" by simp
  show ?thesis
    using assms(1) assms(2) p hs
    by (simp add: updateLibrary_def Let_def newlyArrived_def)
qed

text \<open>
  C2. When the services resolve and exactly 25 records of the batch are new, the cycle
  raises the syncing flag, then writes three libraries to the store, of 10, 20 and 25
  records more than the library it started from, each followed by the progress published:
  2/5, 4/5 and 1, that is \<open>min ((i + 10) / 25) 1\<close> for \<open>i\<close> = 0, 10, 20. The last library
  is then written once more and saved, and the flag is cleared.
\<close>

theorem updateLibrary_progress_25:
  assumes "reliable appSvc"
    and "length (filter (isNewBook (set (map hash lib))) sb) = 25"
  shows "\<exists>l1 l2 l3. updateLibrary appSvc lib False (Some sb) =
            ([SetIsSyncing True,
              SetLibrary l1, SetSyncProgress (2 / 5),
              SetLibrary l2, SetSyncProgress (4 / 5),
              SetLibrary l3, SetSyncProgress 1,
              SetLibrary l3]
               @ (case appSvc of None \<Rightarrow> [] | Some _ \<Rightarrow> [SaveLibraryBooks l3])
               @ [SetIsSyncing False], Inr ())
          \<and> length l1 = length lib + 10 \<and> length l2 = length lib + 20
          \<and> length l3 = length lib + 25"
proof -
  from assms(2) have ne: "sb \<noteq> []" by auto
  from assms(2) have n: "length (newlyArrived lib sb) = 25"
    by (simp add: length_newlyArrived)
  from all_Inr_map [of "processOldBook appSvc (sort_key updatedAt sb)"
      "coversDownloaded appSvc (set (map hash (sort_key updatedAt sb))) lib"]
    reliable_processOldBook [OF assms(1)]
  obtain ul where ul: "map (processOldBook appSvc (sort_key updatedAt sb))
      (coversDownloaded appSvc (set (map hash (sort_key updatedAt sb))) lib) = map Inr ul"
    by blast
  from map_Inr_length [OF ul] have len: "length ul = length lib" by simp
  from hydrateNewBooks_25 [OF assms(1) n, of ul] obtain l1 l2 l3
    where h: "hydrateNewBooks appSvc (newlyArrived lib sb) 0 ul =
            ([SetLibrary l1, SetSyncProgress (2 / 5), SetLibrary l2, SetSyncProgress (4 / 5),
              SetLibrary l3, SetSyncProgress 1], Inr l3)"
      and l: "length l1 = length ul + 10" "length l2 = length ul + 20" "length l3 = length ul + 25"
    by blast
  from updateLibrary_unfold [OF ne reliable_downloadOldCovers [OF assms(1)] ul]
  have "updateLibrary appSvc lib False (Some sb) =
            ([SetIsSyncing True,
              SetLibrary l1, SetSyncProgress (2 / 5),
              SetLibrary l2, SetSyncProgress (4 / 5),
              SetLibrary l3, SetSyncProgress 1,
              SetLibrary l3]
               @ (case appSvc of None \<Rightarrow> [] | Some _ \<Rightarrow> [SaveLibraryBooks l3])
               @ [SetIsSyncing False], Inr ())"
    by (simp add: h n)
  with l len show ?thesis by auto
qed

theorem updateLibrary_progress_25_witness:
  "\<exists>l1 l2 l3. updateLibrary None [] False (Some exBatch25) =
            ([SetIsSyncing True,
              SetLibrary l1, SetSyncProgress (2 / 5),
              SetLibrary l2, SetSyncProgress (4 / 5),
              SetLibrary l3, SetSyncProgress 1,
              SetLibrary l3, SetIsSyncing False], Inr ())
      \<and> length l1 = 10 \<and> length l2 = 20 \<and> length l3 = 25"
proof -
  have r: "reliable None"
    by (simp add: reliable_def downloadBookCovers_call_def generateCoverImageUrl_call_def)
  have "filter (isNewBook (set (map hash []))) exBatch25 = exBatch25"
    by (simp add: exBatch25_def isNewBook_def truthy_def get_def mkBook_def)
  then have n: "length (filter (isNewBook (set (map hash []))) exBatch25) = 25"
    by (simp add: exBatch25_def)
  from updateLibrary_progress_25 [OF r n] show ?thesis by simp
qed


section \<open>The syncing flag when a service call fails\<close>

text \<open>
  C5 fails on the code: a batch with one new record and a cover download that rejects.
  The flag is raised, the rejection leaves \<open>updateLibrary\<close> at once, and the store is left
  with \<open>isSyncing\<close> set.
\<close>

theorem updateLibrary_flag_stuck:
  "runMerge (Some failingDownloads) (storeOf []) (Some [exArrived])
     = ((storeOf [])\<lparr> isSyncing := True \<rparr>, Inl Rejected)"
  by (simp add: eval_defs failingDownloads_def exArrived_def storeOf_def)

section \<open>Merging the same batch twice\<close>


lemma overlay_idem [simp]: "overlay a (overlay b a) = overlay b a"
  "overlay a (overlay a b) = overlay a b" "overlay a a = a" "overlay a (Some v) = Some v"
  by (simp_all add: overlay_def split: option.splits)



lemma updatedAt_mergedBook: "updatedAt m \<le> updatedAt (mergedBook m x)"
  by (simp add: mergedBook_def spread_def)

lemma sameButCovers_refl [simp]: "sameButCovers a a"
  by (simp add: sameButCovers_def)


lemma sameButCovers_writeCovers [simp]: "sameButCovers b (writeCovers appSvc b)"
  by (simp add: sameButCovers_def)














end
